theory Spec2Isabelle
  imports Main
begin

section \<open>The store of src/main.py\<close>

text \<open>
  The class \<open>InMemoryDatabase\<close> holds four dictionaries (lines 2-6). Keys, fields and
  caller ids are Python strings, values are Python's unbounded integers, a waiter queue
  is a Python list. Each dictionary is a map; a method takes the store and returns its
  result together with the store it leaves behind.
\<close>

record InMemoryDatabase =
  records :: "string \<rightharpoonup> (string \<rightharpoonup> int)"
  modification_count :: "string \<rightharpoonup> int"
  locks :: "string \<rightharpoonup> string"
  lock_queues :: "string \<rightharpoonup> string list"

text \<open>
  Reading or incrementing \<open>d[k]\<close> for a missing key raises \<open>KeyError\<close>; the store
  then stays as the statements before the raise left it.
\<close>

datatype error = KeyError

text \<open>\<open>__init__\<close>, lines 2-6: four empty dictionaries.\<close>

definition init :: InMemoryDatabase where
  "init = \<lparr>records = Map.empty, modification_count = Map.empty,
           locks = Map.empty, lock_queues = Map.empty\<rparr>"

text \<open>\<open>inc\<close> and \<open>delete\<close>, lines 8-14: both return \<open>None\<close> and do nothing.\<close>

definition inc :: "string \<Rightarrow> string \<Rightarrow> int \<Rightarrow> InMemoryDatabase \<Rightarrow> (error + unit) \<times> InMemoryDatabase" where
  "inc key field val s = (Inr (), s)"

definition delete :: "string \<Rightarrow> string \<Rightarrow> InMemoryDatabase \<Rightarrow> (error + unit) \<times> InMemoryDatabase" where
  "delete key field s = (Inr (), s)"

text \<open>\<open>get\<close>, lines 16-20.\<close>

definition get :: "string \<Rightarrow> string \<Rightarrow> InMemoryDatabase \<Rightarrow> (error + int option) \<times> InMemoryDatabase" where
  "get key field s =
     (case records s key of
        Some r \<Rightarrow> (case r field of Some v \<Rightarrow> (Inr (Some v), s) | None \<Rightarrow> (Inr None, s))
      | None \<Rightarrow> (Inr None, s))"

text \<open>
  \<open>set_or_inc_by_caller\<close>, lines 22-38. The statements run in the source's order:
  the ownership guard, the creation of a missing record with count 0, the update of the
  field, the increment of the count (which raises when the count is missing), the
  return of the field's value.
\<close>

definition set_or_inc_by_caller ::
  "string \<Rightarrow> string \<Rightarrow> int \<Rightarrow> string \<Rightarrow> InMemoryDatabase \<Rightarrow> (error + int option) \<times> InMemoryDatabase" where
  "set_or_inc_by_caller key field val caller_id s =
     (if locks s key = None \<or> locks s key \<noteq> Some caller_id then (Inr None, s)
      else
        let s1 = (if records s key = None
                  then s\<lparr>records := (records s)(key \<mapsto> Map.empty),
                         modification_count := (modification_count s)(key \<mapsto> 0)\<rparr>
                  else s)
        in case records s1 key of
             None \<Rightarrow> (Inl KeyError, s1)
           | Some r \<Rightarrow>
               let v = (case r field of Some old \<Rightarrow> old + val | None \<Rightarrow> val);
                   s2 = s1\<lparr>records := (records s1)(key \<mapsto> r(field \<mapsto> v))\<rparr>
               in (case modification_count s2 key of
                     None \<Rightarrow> (Inl KeyError, s2)
                   | Some n \<Rightarrow>
                       (Inr (Some v),
                        s2\<lparr>modification_count := (modification_count s2)(key \<mapsto> n + 1)\<rparr>)))"

text \<open>
  \<open>delete_by_caller\<close>, lines 40-56. After the guard: the field is removed, the count
  is incremented (raising when it is missing), and a record left without fields is
  removed together with its count, its lock and its queue (\<open>pop(key, None)\<close> never
  raises).
\<close>

definition delete_by_caller ::
  "string \<Rightarrow> string \<Rightarrow> string \<Rightarrow> InMemoryDatabase \<Rightarrow> (error + bool) \<times> InMemoryDatabase" where
  "delete_by_caller key field caller_id s =
     (if locks s key = None \<or> locks s key \<noteq> Some caller_id then (Inr False, s)
      else
        case records s key of
          None \<Rightarrow> (Inr False, s)
        | Some r \<Rightarrow>
            if r field = None then (Inr False, s)
            else
              let r' = r(field := None);
                  s1 = s\<lparr>records := (records s)(key \<mapsto> r')\<rparr>
              in (case modification_count s1 key of
                    None \<Rightarrow> (Inl KeyError, s1)
                  | Some n \<Rightarrow>
                      let s2 = s1\<lparr>modification_count := (modification_count s1)(key \<mapsto> n + 1)\<rparr>
                      in if r' = Map.empty
                         then (Inr True,
                               s2\<lparr>records := (records s2)(key := None),
                                  modification_count := (modification_count s2)(key := None),
                                  locks := (locks s2)(key := None),
                                  lock_queues := (lock_queues s2)(key := None)\<rparr>)
                         else (Inr True, s2)))"

text \<open>
  \<open>lock\<close>, lines 58-79. The result is a string or \<open>None\<close> (line 70). The queue is
  created empty when missing (lines 73-74), then read back and extended unless the caller
  is already in it (lines 76-77).
\<close>

definition lock :: "string \<Rightarrow> string \<Rightarrow> InMemoryDatabase \<Rightarrow> (error + string option) \<times> InMemoryDatabase" where
  "lock key caller_id s =
     (if records s key = None then (Inr (Some ''invalid_request''), s)
      else if locks s key = None
      then (Inr (Some ''acquired''), s\<lparr>locks := (locks s)(key \<mapsto> caller_id)\<rparr>)
      else if locks s key = Some caller_id then (Inr None, s)
      else
        let s1 = (if lock_queues s key = None
                  then s\<lparr>lock_queues := (lock_queues s)(key \<mapsto> [])\<rparr>
                  else s)
        in case lock_queues s1 key of
             None \<Rightarrow> (Inl KeyError, s1)
           | Some q \<Rightarrow>
               if caller_id \<notin> set q
               then (Inr (Some ''wait''),
                     s1\<lparr>lock_queues := (lock_queues s1)(key \<mapsto> q @ [caller_id])\<rparr>)
               else (Inr (Some ''wait''), s1))"

text \<open>
  \<open>unlock\<close>, lines 81-95. The lock is deleted first; a queue that exists and is not
  empty loses its head (\<open>pop(0)\<close>), which becomes the owner. The queue's entry itself
  stays in \<open>lock_queues\<close>.
\<close>

definition unlock :: "string \<Rightarrow> InMemoryDatabase \<Rightarrow> (error + string option) \<times> InMemoryDatabase" where
  "unlock key s =
     (if locks s key = None then (Inr None, s)
      else
        let s1 = s\<lparr>locks := (locks s)(key := None)\<rparr>
        in case lock_queues s1 key of
             Some (next_caller # rest) \<Rightarrow>
               (Inr (Some ''released''),
                s1\<lparr>lock_queues := (lock_queues s1)(key \<mapsto> rest),
                   locks := (locks s1)(key \<mapsto> next_caller)\<rparr>)
           | Some [] \<Rightarrow> (Inr (Some ''released''), s1)
           | None \<Rightarrow> (Inr (Some ''released''), s1))"

subsection \<open>Sequences of calls\<close>

text \<open>
  One constructor per public method. \<open>top_n_keys\<close> (lines 97-106) sorts a copy of the
  items of \<open>modification_count\<close> and formats them into a new list: it writes to no
  dictionary, so as a step it leaves the store as it is. A step that raises leaves the
  store as the raise found it.
\<close>

datatype operation =
    Inc string string int
  | Delete string string
  | Get string string
  | SetOrIncByCaller string string int string
  | DeleteByCaller string string string
  | Lock string string
  | Unlock string
  | TopNKeys int

fun step :: "operation \<Rightarrow> InMemoryDatabase \<Rightarrow> InMemoryDatabase" where
  "step (Inc key field val) s = snd (inc key field val s)"
| "step (Delete key field) s = snd (delete key field s)"
| "step (Get key field) s = snd (get key field s)"
| "step (SetOrIncByCaller key field val caller_id) s = snd (set_or_inc_by_caller key field val caller_id s)"
| "step (DeleteByCaller key field caller_id) s = snd (delete_by_caller key field caller_id s)"
| "step (Lock key caller_id) s = snd (lock key caller_id s)"
| "step (Unlock key) s = snd (unlock key s)"
| "step (TopNKeys n) s = s"

fun run :: "operation list \<Rightarrow> InMemoryDatabase \<Rightarrow> InMemoryDatabase" where
  "run [] s = s"
| "run (x # xs) s = run xs (step x s)"

text \<open>The states a sequence of calls reaches from the freshly constructed store.\<close>

inductive reachable :: "InMemoryDatabase \<Rightarrow> bool" where
  reachable_init: "reachable init"
| reachable_step: "reachable s \<Longrightarrow> reachable (step x s)"

subsection \<open>Properties of a store\<close>

text \<open>No caller id occurs twice in a waiter queue.\<close>

definition queues_distinct :: "InMemoryDatabase \<Rightarrow> bool" where
  "queues_distinct s = (\<forall>key q. lock_queues s key = Some q \<longrightarrow> distinct q)"

text \<open>No key maps to an empty waiter queue.\<close>

definition no_empty_queue :: "InMemoryDatabase \<Rightarrow> bool" where
  "no_empty_queue s = (\<forall>key. lock_queues s key \<noteq> Some [])"

text \<open>The waiters of a key, a missing queue read as no waiters.\<close>

definition waiters :: "InMemoryDatabase \<Rightarrow> string \<Rightarrow> string list" where
  "waiters s key = (case lock_queues s key of None \<Rightarrow> [] | Some q \<Rightarrow> q)"

text \<open>Every record has a modification count (line 37 and line 47 raise otherwise).\<close>

definition counts_present :: "InMemoryDatabase \<Rightarrow> bool" where
  "counts_present s = (\<forall>key. records s key \<noteq> None \<longrightarrow> modification_count s key \<noteq> None)"

text \<open>Every locked key has a record.\<close>

definition locked_have_records :: "InMemoryDatabase \<Rightarrow> bool" where
  "locked_have_records s = (\<forall>key. locks s key \<noteq> None \<longrightarrow> records s key \<noteq> None)"

subsection \<open>Some stores\<close>

text \<open>
  One record \<open>k1\<close> with the field \<open>f = 5\<close>, modified once: unlocked; locked by
  \<open>A\<close>; locked by \<open>A\<close> with \<open>B\<close> and \<open>C\<close> waiting. Then a record with two
  fields, and a store that holds nothing but a lock of \<open>A\<close> on \<open>k1\<close>.
\<close>

definition store_unlocked :: InMemoryDatabase where
  "store_unlocked =
     \<lparr>records = [''k1'' \<mapsto> [''f'' \<mapsto> 5]], modification_count = [''k1'' \<mapsto> 1],
      locks = Map.empty, lock_queues = Map.empty\<rparr>"

definition store_locked :: InMemoryDatabase where
  "store_locked =
     \<lparr>records = [''k1'' \<mapsto> [''f'' \<mapsto> 5]], modification_count = [''k1'' \<mapsto> 1],
      locks = [''k1'' \<mapsto> ''A''], lock_queues = Map.empty\<rparr>"

definition store_waiting :: InMemoryDatabase where
  "store_waiting =
     \<lparr>records = [''k1'' \<mapsto> [''f'' \<mapsto> 5]], modification_count = [''k1'' \<mapsto> 1],
      locks = [''k1'' \<mapsto> ''A''], lock_queues = [''k1'' \<mapsto> [''B'', ''C'']]\<rparr>"

definition store_two_fields :: InMemoryDatabase where
  "store_two_fields =
     \<lparr>records = [''k1'' \<mapsto> [''g'' \<mapsto> 2, ''f'' \<mapsto> 5]], modification_count = [''k1'' \<mapsto> 2],
      locks = [''k1'' \<mapsto> ''A''], lock_queues = [''k1'' \<mapsto> [''B'']]\<rparr>"

definition store_lock_only :: InMemoryDatabase where
  "store_lock_only =
     \<lparr>records = Map.empty, modification_count = Map.empty,
      locks = [''k1'' \<mapsto> ''A''], lock_queues = Map.empty\<rparr>"

section \<open>What the operations do to the four maps\<close>

lemma step_init: "step x init = init"
  by (cases x)
    (simp_all add: init_def inc_def delete_def get_def set_or_inc_by_caller_def
      delete_by_caller_def lock_def unlock_def)

lemma reachable_is_init: "reachable s \<Longrightarrow> s = init"
  by (induction rule: reachable.induct) (simp_all add: step_init)

lemma run_append: "run (xs @ ys) s = run ys (run xs s)"
  by (induction xs arbitrary: s) simp_all

lemma reachable_run: "reachable s \<Longrightarrow> reachable (run xs s)"
  by (induction xs arbitrary: s) (simp_all add: reachable_step)

text \<open>The reachable stores are the results of the call sequences run from \<open>init\<close>.\<close>

lemma reachable_iff_run: "reachable s \<longleftrightarrow> (\<exists>xs. s = run xs init)"
proof
  assume "reachable s"
  then show "\<exists>xs. s = run xs init"
  proof (induction rule: reachable.induct)
    case reachable_init
    have "init = run [] init" by simp
    then show ?case by blast
  next
    case (reachable_step s x)
    then obtain xs where "s = run xs init" by blast
    then have "step x s = run (xs @ [x]) init" by (simp add: run_append)
    then show ?case by blast
  qed
next
  assume "\<exists>xs. s = run xs init"
  then show "reachable s" using reachable_run [OF reachable_init] by blast
qed

text \<open>How each method changes \<open>lock_queues\<close>.\<close>

lemma lock_queues_set_or_inc:
  "lock_queues (snd (set_or_inc_by_caller key field val caller_id s)) = lock_queues s"
  by (simp add: set_or_inc_by_caller_def Let_def split: option.splits)

lemma lock_queues_delete_by_caller:
  "lock_queues (snd (delete_by_caller key field caller_id s)) = lock_queues s \<or>
   lock_queues (snd (delete_by_caller key field caller_id s)) = (lock_queues s)(key := None)"
  by (simp add: delete_by_caller_def Let_def split: option.splits)

lemma lock_queues_lock:
  "lock_queues (snd (lock key caller_id s)) = lock_queues s \<or>
   (caller_id \<notin> set (waiters s key) \<and>
    lock_queues (snd (lock key caller_id s)) = (lock_queues s)(key \<mapsto> waiters s key @ [caller_id]))"
  by (auto simp: lock_def waiters_def Let_def split: option.splits)

lemma lock_queues_unlock:
  "lock_queues (snd (unlock key s)) = lock_queues s \<or>
   (\<exists>c q. lock_queues s key = Some (c # q) \<and>
      lock_queues (snd (unlock key s)) = (lock_queues s)(key \<mapsto> q))"
  by (auto simp: unlock_def Let_def split: option.splits list.splits)

text \<open>Queues without duplicates stay so under every call.\<close>

lemma queues_distinct_step: "queues_distinct s \<Longrightarrow> queues_distinct (step x s)"
proof (cases x)
  case (SetOrIncByCaller key field val caller_id)
  assume "queues_distinct s"
  then show ?thesis
    using SetOrIncByCaller by (simp add: queues_distinct_def lock_queues_set_or_inc)
next
  case (DeleteByCaller key field caller_id)
  assume "queues_distinct s"
  then show ?thesis
    using lock_queues_delete_by_caller [of key field caller_id s] DeleteByCaller
    by (auto simp: queues_distinct_def split: if_splits)
next
  case (Lock key caller_id)
  assume d: "queues_distinct s"
  then have "distinct (waiters s key)"
    by (simp add: queues_distinct_def waiters_def split: option.splits)
  with d show ?thesis
    using lock_queues_lock [of key caller_id s] Lock
    by (auto simp: queues_distinct_def split: if_splits)
next
  case (Unlock key)
  assume d: "queues_distinct s"
  have "distinct q" if "lock_queues s key = Some (c # q)" for c q
  proof -
    from d that have "distinct (c # q)" unfolding queues_distinct_def by blast
    then show ?thesis by simp
  qed
  with d show ?thesis
    using lock_queues_unlock [of key s] Unlock
    by (auto simp: queues_distinct_def split: if_splits)
qed (simp_all add: queues_distinct_def inc_def delete_def get_def split: option.splits)

text \<open>
  A key locked by somebody else, with a record: \<open>lock\<close> answers \<open>wait\<close> and touches
  the key's queue only.
\<close>

lemma lock_wait_result:
  assumes "records s key = Some r" "locks s key = Some owner" "owner \<noteq> caller_id"
  shows "lock key caller_id s =
    (Inr (Some ''wait''),
     if caller_id \<in> set (waiters s key) then s
     else s\<lparr>lock_queues := (lock_queues s)(key \<mapsto> waiters s key @ [caller_id])\<rparr>)"
  using assms by (auto simp: lock_def waiters_def Let_def split: option.splits)

lemma waiters_lock_wait:
  assumes "records s key = Some r" "locks s key = Some owner" "owner \<noteq> caller_id"
  shows "waiters (snd (lock key caller_id s)) key =
         waiters s key @ (if caller_id \<in> set (waiters s key) then [] else [caller_id])"
  using assms by (simp add: lock_wait_result waiters_def)

lemma lock_wait_frame:
  assumes "records s key = Some r" "locks s key = Some owner" "owner \<noteq> caller_id"
  shows "records (snd (lock key caller_id s)) = records s"
    and "locks (snd (lock key caller_id s)) = locks s"
  using assms by (simp_all add: lock_wait_result)

text \<open>
  Two properties that every call keeps, and what they give: a store in which every
  record has a count never raises, and \<open>lock\<close>, \<open>unlock\<close> and \<open>get\<close> never
  raise at all.
\<close>

lemma counts_present_step: "counts_present s \<Longrightarrow> counts_present (step x s)"
  by (cases x)
    (auto simp: counts_present_def inc_def delete_def get_def set_or_inc_by_caller_def
      delete_by_caller_def lock_def unlock_def Let_def split: option.splits list.splits if_splits)

lemma locked_have_records_step: "locked_have_records s \<Longrightarrow> locked_have_records (step x s)"
  by (cases x)
    (auto simp: locked_have_records_def inc_def delete_def get_def set_or_inc_by_caller_def
      delete_by_caller_def lock_def unlock_def Let_def split: option.splits list.splits if_splits)

lemma counts_present_no_raise:
  "counts_present s \<Longrightarrow>
   fst (set_or_inc_by_caller key field val caller_id s) \<noteq> Inl KeyError \<and>
   fst (delete_by_caller key field caller_id s) \<noteq> Inl KeyError"
  by (auto simp: counts_present_def set_or_inc_by_caller_def delete_by_caller_def Let_def
      split: option.splits)

lemma lock_unlock_get_no_raise:
  "fst (lock key caller_id s) \<noteq> Inl KeyError \<and> fst (unlock key s) \<noteq> Inl KeyError \<and>
   fst (get key field s) \<noteq> Inl KeyError"
  by (auto simp: lock_def unlock_def get_def Let_def split: option.splits list.splits)

text \<open>
  With the lock held, a record without a count makes both gated mutations raise: the
  increment of line 37 and of line 47 reads the count first.
\<close>

lemma gated_raise_without_count:
  assumes "locks s key = Some caller_id" "records s key = Some r" "modification_count s key = None"
  shows "fst (set_or_inc_by_caller key field val caller_id s) = Inl KeyError"
    and "r field \<noteq> None \<Longrightarrow> fst (delete_by_caller key field caller_id s) = Inl KeyError"
  using assms by (auto simp: set_or_inc_by_caller_def delete_by_caller_def Let_def)

text \<open>Which calls keep the store free of empty queues.\<close>

lemma no_empty_queue_lock: "no_empty_queue s \<Longrightarrow> no_empty_queue (snd (lock key caller_id s))"
  using lock_queues_lock [of key caller_id s]
  by (auto simp: no_empty_queue_def split: if_splits)

lemma no_empty_queue_delete_by_caller:
  "no_empty_queue s \<Longrightarrow> no_empty_queue (snd (delete_by_caller key field caller_id s))"
  using lock_queues_delete_by_caller [of key field caller_id s]
  by (auto simp: no_empty_queue_def split: if_splits)

lemma no_empty_queue_unlock:
  assumes "no_empty_queue s" "locks s key = None \<or> length (waiters s key) \<noteq> 1"
  shows "no_empty_queue (snd (unlock key s))"
  using assms
  by (auto simp: no_empty_queue_def unlock_def waiters_def Let_def split: option.splits list.splits)

lemma unlock_last_waiter:
  assumes "locks s key = Some owner" "lock_queues s key = Some [c]"
  shows "unlock key s =
    (Inr (Some ''released''),
     s\<lparr>lock_queues := (lock_queues s)(key \<mapsto> []), locks := (locks s)(key \<mapsto> c)\<rparr>)"
  using assms by (simp add: unlock_def)

text \<open>
  Where records come from: a call gives a key its record only if it is
  \<open>set_or_inc_by_caller\<close> on that key by the holder of the key's lock, and such a call
  on a key without a record does create it.
\<close>

lemma record_created_by_holder:
  assumes "records s key = None" "records (step x s) key \<noteq> None"
  shows "\<exists>field val caller_id. x = SetOrIncByCaller key field val caller_id \<and> locks s key = Some caller_id"
proof (cases x)
  case (SetOrIncByCaller k f v c)
  with assms show ?thesis
    by (auto simp: set_or_inc_by_caller_def Let_def split: if_splits option.splits)
next
  case (DeleteByCaller k f c)
  with assms show ?thesis
    by (auto simp: delete_by_caller_def Let_def split: if_splits option.splits)
next
  case (Lock k c)
  with assms show ?thesis
    by (auto simp: lock_def Let_def split: if_splits option.splits)
next
  case (Unlock k)
  with assms show ?thesis
    by (auto simp: unlock_def Let_def split: if_splits option.splits list.splits)
qed (use assms in \<open>simp_all add: inc_def delete_def get_def split: option.splits\<close>)

lemma record_creation:
  assumes "records s key = None" "locks s key = Some caller_id"
  shows "fst (set_or_inc_by_caller key field val caller_id s) = Inr (Some val)"
    and "records (snd (set_or_inc_by_caller key field val caller_id s)) key = Some [field \<mapsto> val]"
    and "get key field (snd (set_or_inc_by_caller key field val caller_id s)) =
          (Inr (Some val), snd (set_or_inc_by_caller key field val caller_id s))"
  using assms by (simp_all add: set_or_inc_by_caller_def get_def Let_def)

section \<open>The claims\<close>

subsection \<open>C7: locking a key without a record\<close>

text \<open>
  C7. For every key whose record does not exist and every caller id, \<open>lock\<close> returns
  \<open>invalid_request\<close> and leaves the whole store as it was: no record, no lock owner
  and no waiter queue is created.
\<close>

theorem lock_missing_record:
  "records s key = None \<Longrightarrow> lock key caller_id s = (Inr (Some ''invalid_request''), s)"
  by (simp add: lock_def)

theorem lock_missing_record_witness:
  "records store_waiting ''k2'' = None \<and>
   lock ''k2'' ''A'' store_waiting = (Inr (Some ''invalid_request''), store_waiting)"
  using lock_missing_record [of store_waiting "''k2''" "''A''"]
  by (simp add: store_waiting_def)

subsection \<open>C3: gated mutations without the lock\<close>

text \<open>
  C3. For every key, field, delta and caller id: when the key has no lock owner, or an
  owner other than the caller, \<open>set_or_inc_by_caller\<close> returns \<open>None\<close> and
  \<open>delete_by_caller\<close> returns \<open>False\<close>, and both leave the whole store unchanged.
\<close>

theorem gated_without_lock:
  "locks s key = None \<or> locks s key \<noteq> Some caller_id \<Longrightarrow>
   set_or_inc_by_caller key field val caller_id s = (Inr None, s) \<and>
   delete_by_caller key field caller_id s = (Inr False, s)"
  by (simp add: set_or_inc_by_caller_def delete_by_caller_def)

theorem gated_without_lock_witness:
  "locks store_waiting ''k2'' = None \<and>
   set_or_inc_by_caller ''k2'' ''f'' 3 ''A'' store_waiting = (Inr None, store_waiting) \<and>
   delete_by_caller ''k2'' ''f'' ''A'' store_waiting = (Inr False, store_waiting) \<and>
   locks store_waiting ''k1'' \<noteq> Some ''B'' \<and>
   set_or_inc_by_caller ''k1'' ''f'' 3 ''B'' store_waiting = (Inr None, store_waiting) \<and>
   delete_by_caller ''k1'' ''f'' ''B'' store_waiting = (Inr False, store_waiting)"
  using gated_without_lock [of store_waiting "''k2''" "''A''" "''f''" 3]
    gated_without_lock [of store_waiting "''k1''" "''B''" "''f''" 3]
  by (simp add: store_waiting_def)

subsection \<open>C9: locking again by the holder\<close>

text \<open>
  C9. For every key locked by the caller, another \<open>lock\<close> by that caller returns
  \<open>None\<close>, the no-op result, which is not \<open>acquired\<close>, and leaves the lock owner,
  the waiter queue and the rest of the store unchanged. The key has a record: \<open>lock\<close>
  looks at the record first (line 60), this is the branch after it, and by
  \<open>locked_have_records_step\<close> no call separates a lock from its record.
\<close>

theorem relock_by_holder:
  "records s key = Some r \<Longrightarrow> locks s key = Some caller_id \<Longrightarrow>
   lock key caller_id s = (Inr None, s) \<and>
   fst (lock key caller_id s) \<noteq> Inr (Some ''acquired'')"
  by (simp add: lock_def)

theorem relock_by_holder_witness:
  "records store_waiting ''k1'' = Some [''f'' \<mapsto> 5] \<and> locks store_waiting ''k1'' = Some ''A'' \<and>
   lock ''k1'' ''A'' store_waiting = (Inr None, store_waiting)"
  using relock_by_holder [of store_waiting "''k1''" "[''f'' \<mapsto> 5]" "''A''"]
  by (simp add: store_waiting_def)

subsection \<open>C5: unlock\<close>

text \<open>
  C5. For every key: without a lock owner \<open>unlock\<close> returns \<open>None\<close> and changes
  nothing, whether or not the key has a record. With an owner and a waiter queue
  \<open>c # q\<close>, the head \<open>c\<close> becomes the owner and \<open>q\<close>, the other waiters in their
  order, stays queued. With an owner and no waiters the key ends without owner. In
  both cases with an owner the result is \<open>released\<close>, and nothing else changes.
\<close>

theorem unlock_cases:
  "(locks s key = None \<longrightarrow> unlock key s = (Inr None, s)) \<and>
   (\<forall>owner c q. locks s key = Some owner \<and> lock_queues s key = Some (c # q) \<longrightarrow>
      unlock key s =
        (Inr (Some ''released''),
         s\<lparr>lock_queues := (lock_queues s)(key \<mapsto> q), locks := (locks s)(key \<mapsto> c)\<rparr>)) \<and>
   (\<forall>owner. locks s key = Some owner \<and> waiters s key = [] \<longrightarrow>
      unlock key s = (Inr (Some ''released''), s\<lparr>locks := (locks s)(key := None)\<rparr>))"
  by (auto simp: unlock_def waiters_def split: option.splits list.splits)

theorem unlock_cases_witness:
  "locks store_unlocked ''k1'' = None \<and> records store_unlocked ''k1'' = Some [''f'' \<mapsto> 5] \<and>
   unlock ''k1'' store_unlocked = (Inr None, store_unlocked) \<and>
   locks store_waiting ''k1'' = Some ''A'' \<and> lock_queues store_waiting ''k1'' = Some [''B'', ''C''] \<and>
   unlock ''k1'' store_waiting =
     (Inr (Some ''released''),
      store_waiting\<lparr>lock_queues := [''k1'' \<mapsto> [''C'']], locks := [''k1'' \<mapsto> ''B'']\<rparr>) \<and>
   locks store_locked ''k1'' = Some ''A'' \<and> waiters store_locked ''k1'' = [] \<and>
   unlock ''k1'' store_locked = (Inr (Some ''released''), store_unlocked)"
proof -
  note t = unlock_cases
  have 1: "locks store_unlocked ''k1'' = None" "records store_unlocked ''k1'' = Some [''f'' \<mapsto> 5]"
    by (simp_all add: store_unlocked_def)
  have 2: "locks store_waiting ''k1'' = Some ''A''" "lock_queues store_waiting ''k1'' = Some [''B'', ''C'']"
    by (simp_all add: store_waiting_def)
  have 3: "locks store_locked ''k1'' = Some ''A''" "waiters store_locked ''k1'' = []"
    by (simp_all add: store_locked_def waiters_def)
  have a: "unlock ''k1'' store_unlocked = (Inr None, store_unlocked)"
    using t [of store_unlocked "''k1''", THEN conjunct1] 1 by simp
  have b: "unlock ''k1'' store_waiting =
     (Inr (Some ''released''),
      store_waiting\<lparr>lock_queues := [''k1'' \<mapsto> [''C'']], locks := [''k1'' \<mapsto> ''B'']\<rparr>)"
    using t [of store_waiting "''k1''", THEN conjunct2, THEN conjunct1, rule_format,
        of "''A''" "''B''" "[''C'']"] 2
    by (simp add: store_waiting_def)
  have c: "unlock ''k1'' store_locked = (Inr (Some ''released''), store_unlocked)"
    using t [of store_locked "''k1''", THEN conjunct2, THEN conjunct2, rule_format, of "''A''"] 3
    by (simp add: store_locked_def store_unlocked_def)
  from 1 2 3 a b c show ?thesis by blast
qed

subsection \<open>C2: the stores reachable from the empty store\<close>

text \<open>
  C2. Every store reachable from the freshly constructed one is that store: its four
  maps are empty. In it \<open>lock\<close> answers \<open>invalid_request\<close> for every key and
  \<open>set_or_inc_by_caller\<close> leaves through its guard for every caller, so no call
  sequence creates a record or acquires a lock, and the lines 28-30 that create a
  record are never run.
\<close>

theorem reachable_store_empty:
  "reachable s \<Longrightarrow>
   s = init \<and> records s = Map.empty \<and> modification_count s = Map.empty \<and>
   locks s = Map.empty \<and> lock_queues s = Map.empty \<and>
   (\<forall>key caller_id. lock key caller_id s = (Inr (Some ''invalid_request''), s)) \<and>
   (\<forall>key field val caller_id. set_or_inc_by_caller key field val caller_id s = (Inr None, s))"
proof -
  assume "reachable s"
  then have "s = init" by (rule reachable_is_init)
  then show ?thesis by (simp add: init_def lock_def set_or_inc_by_caller_def)
qed

theorem reachable_store_empty_witness:
  "reachable (run [Lock ''k1'' ''A'', SetOrIncByCaller ''k1'' ''f'' 5 ''A'', Unlock ''k1''] init) \<and>
   run [Lock ''k1'' ''A'', SetOrIncByCaller ''k1'' ''f'' 5 ''A'', Unlock ''k1''] init = init \<and>
   records (run [Lock ''k1'' ''A'', SetOrIncByCaller ''k1'' ''f'' 5 ''A'', Unlock ''k1''] init) = Map.empty \<and>
   locks (run [Lock ''k1'' ''A'', SetOrIncByCaller ''k1'' ''f'' 5 ''A'', Unlock ''k1''] init) = Map.empty"
proof -
  have r: "reachable (run [Lock ''k1'' ''A'', SetOrIncByCaller ''k1'' ''f'' 5 ''A'', Unlock ''k1''] init)"
    unfolding run.simps by (intro reachable_step reachable_init)
  show ?thesis using r reachable_store_empty [OF r] by blast
qed

subsection \<open>C4: delete by the holder of the lock\<close>

text \<open>
  C4. The caller holds the key's lock. If the field exists in the key's record, whose
  count is \<open>n\<close>, it is removed, the count becomes \<open>n + 1\<close> and the result is
  \<open>True\<close>; if that leaves the record without fields, the record, its count, its lock
  owner and its waiter queue are all removed in the same call, whatever the queue
  holds. If the record or the field does not exist, the result is \<open>False\<close> and the
  store, its count included, is unchanged.
\<close>

theorem delete_by_caller_cases:
  "locks s key = Some caller_id \<Longrightarrow>
   (\<forall>r v n. records s key = Some r \<and> r field = Some v \<and> modification_count s key = Some n \<and>
        r(field := None) \<noteq> Map.empty \<longrightarrow>
      delete_by_caller key field caller_id s =
        (Inr True, s\<lparr>records := (records s)(key \<mapsto> r(field := None)),
                     modification_count := (modification_count s)(key \<mapsto> n + 1)\<rparr>)) \<and>
   (\<forall>r v n. records s key = Some r \<and> r field = Some v \<and> modification_count s key = Some n \<and>
        r(field := None) = Map.empty \<longrightarrow>
      delete_by_caller key field caller_id s =
        (Inr True, s\<lparr>records := (records s)(key := None),
                     modification_count := (modification_count s)(key := None),
                     locks := (locks s)(key := None),
                     lock_queues := (lock_queues s)(key := None)\<rparr>)) \<and>
   (records s key = None \<or> (\<exists>r. records s key = Some r \<and> r field = None) \<longrightarrow>
      delete_by_caller key field caller_id s = (Inr False, s))"
  by (auto simp: delete_by_caller_def)

theorem delete_by_caller_cases_witness:
  "locks store_two_fields ''k1'' = Some ''A'' \<and>
   delete_by_caller ''k1'' ''f'' ''A'' store_two_fields =
     (Inr True, store_two_fields\<lparr>records := [''k1'' \<mapsto> [''g'' \<mapsto> 2]],
                                 modification_count := [''k1'' \<mapsto> 3]\<rparr>) \<and>
   locks store_waiting ''k1'' = Some ''A'' \<and>
   lock_queues store_waiting ''k1'' = Some [''B'', ''C''] \<and>
   delete_by_caller ''k1'' ''f'' ''A'' store_waiting = (Inr True, init) \<and>
   delete_by_caller ''k1'' ''g'' ''A'' store_waiting = (Inr False, store_waiting) \<and>
   locks store_lock_only ''k1'' = Some ''A'' \<and>
   delete_by_caller ''k1'' ''f'' ''A'' store_lock_only = (Inr False, store_lock_only)"
proof -
  note t = delete_by_caller_cases
  have l2: "locks store_two_fields ''k1'' = Some ''A''" by (simp add: store_two_fields_def)
  have lw: "locks store_waiting ''k1'' = Some ''A''"
    and qw: "lock_queues store_waiting ''k1'' = Some [''B'', ''C'']"
    by (simp_all add: store_waiting_def)
  have lo: "locks store_lock_only ''k1'' = Some ''A''" by (simp add: store_lock_only_def)
  have rest: "[''g'' \<mapsto> 2, ''f'' \<mapsto> 5::int](''f'' := None) = [''g'' \<mapsto> 2]"
    by (auto simp: fun_eq_iff)
  have "([''g'' \<mapsto> 2::int]) ''g'' \<noteq> Map.empty ''g''" by simp
  then have ne: "[''g'' \<mapsto> 2::int] \<noteq> Map.empty" by metis
  have a: "delete_by_caller ''k1'' ''f'' ''A'' store_two_fields =
     (Inr True, store_two_fields\<lparr>records := [''k1'' \<mapsto> [''g'' \<mapsto> 2]],
                                 modification_count := [''k1'' \<mapsto> 3]\<rparr>)"
    using t [OF l2, of "''f''", THEN conjunct1, rule_format, of "[''g'' \<mapsto> 2, ''f'' \<mapsto> 5]" 5 2]
      rest ne
    by (simp add: store_two_fields_def)
  have b: "delete_by_caller ''k1'' ''f'' ''A'' store_waiting = (Inr True, init)"
    using t [OF lw, of "''f''", THEN conjunct2, THEN conjunct1, rule_format, of "[''f'' \<mapsto> 5]" 5 1]
    by (simp add: store_waiting_def init_def)
  have c: "delete_by_caller ''k1'' ''g'' ''A'' store_waiting = (Inr False, store_waiting)"
    using t [OF lw, of "''g''", THEN conjunct2, THEN conjunct2]
    by (simp add: store_waiting_def)
  have d: "delete_by_caller ''k1'' ''f'' ''A'' store_lock_only = (Inr False, store_lock_only)"
    using t [OF lo, of "''f''", THEN conjunct2, THEN conjunct2]
    by (simp add: store_lock_only_def)
  from l2 lw qw lo a b c d show ?thesis by blast
qed

subsection \<open>C6: set or increment by the holder of the lock\<close>

text \<open>
  C6. The caller holds the key's lock. Without a record for the key, the record is
  created with count 0, the field is set to the delta and the count becomes 1. With a
  record whose count is \<open>n\<close>, an existing field grows by the delta and a missing
  field is set to the delta, and the count becomes \<open>n + 1\<close>. The result is the
  field's new value, and nothing else changes.
\<close>

theorem set_or_inc_by_caller_cases:
  "locks s key = Some caller_id \<Longrightarrow>
   (records s key = None \<longrightarrow>
      set_or_inc_by_caller key field val caller_id s =
        (Inr (Some val), s\<lparr>records := (records s)(key \<mapsto> [field \<mapsto> val]),
                           modification_count := (modification_count s)(key \<mapsto> 1)\<rparr>)) \<and>
   (\<forall>r old n. records s key = Some r \<and> r field = Some old \<and> modification_count s key = Some n \<longrightarrow>
      set_or_inc_by_caller key field val caller_id s =
        (Inr (Some (old + val)), s\<lparr>records := (records s)(key \<mapsto> r(field \<mapsto> old + val)),
                                   modification_count := (modification_count s)(key \<mapsto> n + 1)\<rparr>)) \<and>
   (\<forall>r n. records s key = Some r \<and> r field = None \<and> modification_count s key = Some n \<longrightarrow>
      set_or_inc_by_caller key field val caller_id s =
        (Inr (Some val), s\<lparr>records := (records s)(key \<mapsto> r(field \<mapsto> val)),
                           modification_count := (modification_count s)(key \<mapsto> n + 1)\<rparr>))"
  by (auto simp: set_or_inc_by_caller_def Let_def)

theorem set_or_inc_by_caller_cases_witness:
  "locks store_lock_only ''k1'' = Some ''A'' \<and> records store_lock_only ''k1'' = None \<and>
   set_or_inc_by_caller ''k1'' ''f'' 5 ''A'' store_lock_only = (Inr (Some 5), store_locked) \<and>
   locks store_locked ''k1'' = Some ''A'' \<and>
   set_or_inc_by_caller ''k1'' ''f'' 1 ''A'' store_locked =
     (Inr (Some 6), store_locked\<lparr>records := [''k1'' \<mapsto> [''f'' \<mapsto> 6]],
                                 modification_count := [''k1'' \<mapsto> 2]\<rparr>) \<and>
   set_or_inc_by_caller ''k1'' ''g'' 2 ''A'' store_locked =
     (Inr (Some 2), store_locked\<lparr>records := [''k1'' \<mapsto> [''f'' \<mapsto> 5, ''g'' \<mapsto> 2]],
                                 modification_count := [''k1'' \<mapsto> 2]\<rparr>)"
proof -
  note t = set_or_inc_by_caller_cases
  have lo: "locks store_lock_only ''k1'' = Some ''A''" "records store_lock_only ''k1'' = None"
    by (simp_all add: store_lock_only_def)
  have ll: "locks store_locked ''k1'' = Some ''A''" by (simp add: store_locked_def)
  have a: "set_or_inc_by_caller ''k1'' ''f'' 5 ''A'' store_lock_only = (Inr (Some 5), store_locked)"
    using t [OF lo(1), of "''f''" 5, THEN conjunct1] lo(2)
    by (simp add: store_lock_only_def store_locked_def)
  have b: "set_or_inc_by_caller ''k1'' ''f'' 1 ''A'' store_locked =
     (Inr (Some 6), store_locked\<lparr>records := [''k1'' \<mapsto> [''f'' \<mapsto> 6]],
                                 modification_count := [''k1'' \<mapsto> 2]\<rparr>)"
    using t [OF ll, of "''f''" 1, THEN conjunct2, THEN conjunct1, rule_format, of "[''f'' \<mapsto> 5]" 5 1]
    by (simp add: store_locked_def)
  have c: "set_or_inc_by_caller ''k1'' ''g'' 2 ''A'' store_locked =
     (Inr (Some 2), store_locked\<lparr>records := [''k1'' \<mapsto> [''f'' \<mapsto> 5, ''g'' \<mapsto> 2]],
                                 modification_count := [''k1'' \<mapsto> 2]\<rparr>)"
    using t [OF ll, of "''g''" 2, THEN conjunct2, THEN conjunct2, rule_format, of "[''f'' \<mapsto> 5]" 1]
    by (simp add: store_locked_def)
  from lo ll a b c show ?thesis by blast
qed

subsection \<open>C8: waiting for a lock\<close>

text \<open>
  C8. For every key with a record that is locked by an owner other than the caller,
  \<open>lock\<close> returns \<open>wait\<close> and appends the caller to the key's waiter queue unless
  the caller is in it already, changing nothing else. Every call keeps the queues free
  of duplicates, so in every reachable store a caller id occurs at most once in a
  queue. Two distinct callers locking the same locked key one after the other are
  queued in the order of their calls, each only if not queued before. The key has a
  record, as in C9: \<open>lock\<close> looks at the record first (line 60).
\<close>

theorem lock_wait_queue:
  "(\<forall>s key caller_id owner r.
      records s key = Some r \<and> locks s key = Some owner \<and> owner \<noteq> caller_id \<longrightarrow>
      lock key caller_id s =
        (Inr (Some ''wait''),
         if caller_id \<in> set (waiters s key) then s
         else s\<lparr>lock_queues := (lock_queues s)(key \<mapsto> waiters s key @ [caller_id])\<rparr>)) \<and>
   (\<forall>s x. queues_distinct s \<longrightarrow> queues_distinct (step x s)) \<and>
   (\<forall>s. reachable s \<longrightarrow> queues_distinct s) \<and>
   (\<forall>s key c1 c2 owner r.
      records s key = Some r \<and> locks s key = Some owner \<and> owner \<noteq> c1 \<and> owner \<noteq> c2 \<and>
      c1 \<noteq> c2 \<longrightarrow>
      waiters (run [Lock key c1, Lock key c2] s) key =
        waiters s key @ filter (\<lambda>c. c \<notin> set (waiters s key)) [c1, c2])"
proof (intro conjI allI impI)
  fix s :: InMemoryDatabase and key caller_id owner r
  assume "records s key = Some r \<and> locks s key = Some owner \<and> owner \<noteq> caller_id"
  then show "lock key caller_id s =
        (Inr (Some ''wait''),
         if caller_id \<in> set (waiters s key) then s
         else s\<lparr>lock_queues := (lock_queues s)(key \<mapsto> waiters s key @ [caller_id])\<rparr>)"
    using lock_wait_result by blast
next
  fix s :: InMemoryDatabase and x
  assume "queues_distinct s"
  then show "queues_distinct (step x s)" by (rule queues_distinct_step)
next
  fix s :: InMemoryDatabase
  assume "reachable s"
  then show "queues_distinct s"
    by (induction rule: reachable.induct)
      (simp_all add: queues_distinct_step, simp add: queues_distinct_def init_def)
next
  fix s :: InMemoryDatabase and key c1 c2 owner r
  assume a: "records s key = Some r \<and> locks s key = Some owner \<and> owner \<noteq> c1 \<and> owner \<noteq> c2 \<and>
      c1 \<noteq> c2"
  let ?s1 = "snd (lock key c1 s)"
  from a have r1: "records ?s1 key = Some r" and l1: "locks ?s1 key = Some owner"
    using lock_wait_frame [of s key r owner c1] by simp_all
  from a have w1: "waiters ?s1 key =
      waiters s key @ (if c1 \<in> set (waiters s key) then [] else [c1])"
    using waiters_lock_wait [of s key r owner c1] by simp
  from a r1 l1 have w2: "waiters (snd (lock key c2 ?s1)) key =
      waiters ?s1 key @ (if c2 \<in> set (waiters ?s1 key) then [] else [c2])"
    using waiters_lock_wait [of ?s1 key r owner c2] by simp
  from a w1 w2 show "waiters (run [Lock key c1, Lock key c2] s) key =
        waiters s key @ filter (\<lambda>c. c \<notin> set (waiters s key)) [c1, c2]"
    by auto
qed

theorem lock_wait_queue_witness:
  "records store_waiting ''k1'' = Some [''f'' \<mapsto> 5] \<and> locks store_waiting ''k1'' = Some ''A'' \<and>
   lock ''k1'' ''D'' store_waiting =
     (Inr (Some ''wait''), store_waiting\<lparr>lock_queues := [''k1'' \<mapsto> [''B'', ''C'', ''D'']]\<rparr>) \<and>
   lock ''k1'' ''B'' store_waiting = (Inr (Some ''wait''), store_waiting) \<and>
   queues_distinct store_waiting \<and>
   queues_distinct (step (Lock ''k1'' ''D'') store_waiting) \<and>
   reachable init \<and> queues_distinct init \<and>
   waiters (run [Lock ''k1'' ''D'', Lock ''k1'' ''E''] store_waiting) ''k1'' = [''B'', ''C'', ''D'', ''E'']"
proof -
  have d: "queues_distinct store_waiting"
    by (simp add: queues_distinct_def store_waiting_def)
  have w: "waiters store_waiting ''k1'' = [''B'', ''C'']"
    by (simp add: waiters_def store_waiting_def)
  have h: "records store_waiting ''k1'' = Some [''f'' \<mapsto> 5]" "locks store_waiting ''k1'' = Some ''A''"
    by (simp_all add: store_waiting_def)
  note t = lock_wait_queue
  have 1: "lock ''k1'' ''D'' store_waiting =
     (Inr (Some ''wait''), store_waiting\<lparr>lock_queues := [''k1'' \<mapsto> [''B'', ''C'', ''D'']]\<rparr>)"
    using t [THEN conjunct1, rule_format, of store_waiting "''k1''" "[''f'' \<mapsto> 5]" "''A''" "''D''"] h w
    by (simp add: store_waiting_def)
  have 2: "lock ''k1'' ''B'' store_waiting = (Inr (Some ''wait''), store_waiting)"
    using t [THEN conjunct1, rule_format, of store_waiting "''k1''" "[''f'' \<mapsto> 5]" "''A''" "''B''"] h w
    by simp
  have 3: "queues_distinct (step (Lock ''k1'' ''D'') store_waiting)"
    using t [THEN conjunct2, THEN conjunct1, rule_format, OF d] .
  have 4: "queues_distinct init"
    using t [THEN conjunct2, THEN conjunct2, THEN conjunct1, rule_format, OF reachable_init] .
  have 5: "waiters (run [Lock ''k1'' ''D'', Lock ''k1'' ''E''] store_waiting) ''k1'' = [''B'', ''C'', ''D'', ''E'']"
    using t [THEN conjunct2, THEN conjunct2, THEN conjunct2, rule_format,
        of store_waiting "''k1''" "[''f'' \<mapsto> 5]" "''A''" "''D''" "''E''"] h w
    by simp
  from h d 1 2 3 4 5 reachable_init show ?thesis by blast
qed

subsection \<open>C1: the first scenario, from the empty store\<close>

text \<open>
  C1 says that from the freshly constructed store \<open>lock("k1","A")\<close> returns
  \<open>acquired\<close>, then \<open>set_or_inc_by_caller("k1","f",5,"A")\<close> returns 5, then
  \<open>get("k1","f")\<close> returns 5. The code does not do that: \<open>k1\<close> has no record, so
  \<open>lock\<close> returns at line 61.
\<close>

theorem scenario_counterexample:
  "\<not> (fst (lock ''k1'' ''A'' init) = Inr (Some ''acquired'') \<and>
      fst (set_or_inc_by_caller ''k1'' ''f'' 5 ''A'' (snd (lock ''k1'' ''A'' init))) = Inr (Some 5) \<and>
      fst (get ''k1'' ''f''
        (snd (set_or_inc_by_caller ''k1'' ''f'' 5 ''A'' (snd (lock ''k1'' ''A'' init))))) = Inr (Some 5))"
  by (simp add: lock_def init_def)

text \<open>
  C1, amended. From the freshly constructed store \<open>lock("k1","A")\<close> returns
  \<open>invalid_request\<close>, then \<open>set_or_inc_by_caller("k1","f",5,"A")\<close> returns
  \<open>None\<close>, then \<open>get("k1","f")\<close> returns \<open>None\<close>, each leaving the store empty.
  For every store and every key without a record: a call gives the key a record only
  if it is \<open>set_or_inc_by_caller\<close> on that key by the caller who holds the key's
  lock; and when the caller holds that lock, \<open>set_or_inc_by_caller\<close> returns the
  delta, the key's record becomes that one field, and \<open>get\<close> then returns the delta.
\<close>

theorem scenario_from_empty:
  "lock ''k1'' ''A'' init = (Inr (Some ''invalid_request''), init) \<and>
   set_or_inc_by_caller ''k1'' ''f'' 5 ''A'' init = (Inr None, init) \<and>
   get ''k1'' ''f'' init = (Inr None, init) \<and>
   (\<forall>s x key. records s key = None \<and> records (step x s) key \<noteq> None \<longrightarrow>
      (\<exists>field val caller_id.
         x = SetOrIncByCaller key field val caller_id \<and> locks s key = Some caller_id)) \<and>
   (\<forall>s key field val caller_id. records s key = None \<and> locks s key = Some caller_id \<longrightarrow>
      fst (set_or_inc_by_caller key field val caller_id s) = Inr (Some val) \<and>
      records (snd (set_or_inc_by_caller key field val caller_id s)) key = Some [field \<mapsto> val] \<and>
      get key field (snd (set_or_inc_by_caller key field val caller_id s)) =
        (Inr (Some val), snd (set_or_inc_by_caller key field val caller_id s)))"
proof (intro conjI allI impI)
  show "lock ''k1'' ''A'' init = (Inr (Some ''invalid_request''), init)"
    by (simp add: lock_def init_def)
  show "set_or_inc_by_caller ''k1'' ''f'' 5 ''A'' init = (Inr None, init)"
    by (simp add: set_or_inc_by_caller_def init_def)
  show "get ''k1'' ''f'' init = (Inr None, init)"
    by (simp add: get_def init_def)
next
  fix s :: InMemoryDatabase and x key
  assume "records s key = None \<and> records (step x s) key \<noteq> None"
  then show "\<exists>field val caller_id.
         x = SetOrIncByCaller key field val caller_id \<and> locks s key = Some caller_id"
    using record_created_by_holder by blast
next
  fix s :: InMemoryDatabase and key field val caller_id
  assume a: "records s key = None \<and> locks s key = Some caller_id"
  then show "fst (set_or_inc_by_caller key field val caller_id s) = Inr (Some val)"
    using record_creation(1) by blast
  from a show "records (snd (set_or_inc_by_caller key field val caller_id s)) key = Some [field \<mapsto> val]"
    using record_creation(2) by blast
  from a show "get key field (snd (set_or_inc_by_caller key field val caller_id s)) =
        (Inr (Some val), snd (set_or_inc_by_caller key field val caller_id s))"
    using record_creation(3) by blast
qed

theorem scenario_from_empty_witness:
  "records store_lock_only ''k1'' = None \<and>
   records (step (SetOrIncByCaller ''k1'' ''f'' 5 ''A'') store_lock_only) ''k1'' \<noteq> None \<and>
   locks store_lock_only ''k1'' = Some ''A'' \<and>
   set_or_inc_by_caller ''k1'' ''f'' 5 ''A'' store_lock_only = (Inr (Some 5), store_locked) \<and>
   get ''k1'' ''f'' store_locked = (Inr (Some 5), store_locked)"
proof -
  note t = scenario_from_empty
  have r: "records store_lock_only ''k1'' = None" by (simp add: store_lock_only_def)
  have e: "set_or_inc_by_caller ''k1'' ''f'' 5 ''A'' store_lock_only = (Inr (Some 5), store_locked)"
    by (simp add: set_or_inc_by_caller_def store_lock_only_def store_locked_def)
  have c: "records (step (SetOrIncByCaller ''k1'' ''f'' 5 ''A'') store_lock_only) ''k1'' \<noteq> None"
    by (simp add: e store_locked_def)
  have l: "locks store_lock_only ''k1'' = Some ''A''"
    using t [THEN conjunct2, THEN conjunct2, THEN conjunct2, THEN conjunct1, rule_format,
        of store_lock_only "''k1''" "SetOrIncByCaller ''k1'' ''f'' 5 ''A''"] r c
    by auto
  have g: "get ''k1'' ''f'' store_locked = (Inr (Some 5), store_locked)"
    using t [THEN conjunct2, THEN conjunct2, THEN conjunct2, THEN conjunct2, rule_format,
        of store_lock_only "''k1''" "''A''" "''f''" 5] r l e
    by simp
  from r c l e g show ?thesis by blast
qed

subsection \<open>C10: empty waiter queues\<close>



end
